theory Spec2Isabelle
  imports Main
begin

section \<open>The text-to-tensor preprocessing pipeline of the sentiment notebook\<close>

text \<open>
  The notebook \<^verbatim>\<open>Lab_05/IT21184208_Q3.ipynb\<close> defines four short functions:
  \<^verbatim>\<open>load_data\<close>, \<^verbatim>\<open>clean_text\<close>, \<^verbatim>\<open>preprocess_text\<close> and \<^verbatim>\<open>encode_labels\<close>.
  Each is embedded below under its own name. The calls they make into Python's
  \<^verbatim>\<open>re\<close> and \<^verbatim>\<open>str\<close>, into the Keras \<^verbatim>\<open>Tokenizer\<close> and \<^verbatim>\<open>pad_sequences\<close>, and into pandas
  are embedded as functions named after the call, following the library's code for the
  arguments the notebook passes.
\<close>

subsection \<open>Strings and errors\<close>

text \<open>
  A Python \<^verbatim>\<open>str\<close> is a sequence of Unicode code points; \<open>str\<close> turns an ASCII
  literal into one.
\<close>

type_synonym codepoint = nat
type_synonym pystr = "codepoint list"

definition str :: "string \<Rightarrow> pystr" where
  "str s = map of_char s"

datatype error = FileNotFoundError | EmptyDataError | ParserError | KeyError pystr | ValueError

subsection \<open>\<^verbatim>\<open>clean_text\<close>\<close>

text \<open>
  \<^verbatim>\<open>
  def clean_text(text):
      text = re.sub(r"[^A-Za-z\s]", "", text)
      text = re.sub(r"\s+", " ", text).strip()
      return text
  \<close>
  For a \<^verbatim>\<open>str\<close> pattern the class \<^verbatim>\<open>\s\<close> is Unicode whitespace, the same set of code
  points that \<^verbatim>\<open>str.strip()\<close> removes and \<^verbatim>\<open>str.isspace()\<close> accepts:
  U+0009..U+000D, U+001C..U+0020, U+0085, U+00A0, U+1680, U+2000..U+200A, U+2028, U+2029,
  U+202F, U+205F and U+3000.
\<close>

definition is_ascii_letter :: "codepoint \<Rightarrow> bool" where
  "is_ascii_letter c \<longleftrightarrow> (65 \<le> c \<and> c \<le> 90) \<or> (97 \<le> c \<and> c \<le> 122)"

definition is_space :: "codepoint \<Rightarrow> bool" where
  "is_space c \<longleftrightarrow>
     (9 \<le> c \<and> c \<le> 13) \<or> (28 \<le> c \<and> c \<le> 32) \<or> c = 133 \<or> c = 160 \<or> c = 5760 \<or>
     (8192 \<le> c \<and> c \<le> 8202) \<or> c = 8232 \<or> c = 8233 \<or> c = 8239 \<or> c = 8287 \<or> c = 12288"

text \<open>\<^verbatim>\<open>re.sub(r"[^A-Za-z\s]", "", text)\<close>: every match is one character, replaced by nothing.\<close>

definition sub_non_letter :: "pystr \<Rightarrow> pystr" where
  "sub_non_letter text = filter (\<lambda>c. is_ascii_letter c \<or> is_space c) text"

text \<open>
  \<^verbatim>\<open>re.sub(r"\s+", " ", text)\<close>: scanning from the left, each match is a maximal run of
  whitespace (the quantifier is greedy), replaced by one U+0020.
\<close>

function sub_whitespace :: "pystr \<Rightarrow> pystr" where
  "sub_whitespace [] = []"
| "sub_whitespace (c # cs) =
     (if is_space c then 32 # sub_whitespace (dropWhile is_space cs) else c # sub_whitespace cs)"
  by pat_completeness auto
termination
  by (relation "measure length") (auto simp: less_Suc_eq_le length_dropWhile_le)

text \<open>\<^verbatim>\<open>text.strip()\<close>: whitespace is removed from both ends.\<close>

definition strip :: "pystr \<Rightarrow> pystr" where
  "strip text = rev (dropWhile is_space (rev (dropWhile is_space text)))"

definition clean_text :: "pystr \<Rightarrow> pystr" where
  "clean_text text = strip (sub_whitespace (sub_non_letter text))"

text \<open>
  The normal form the cleaning is compared with: the whitespace-separated words of a
  string (what \<^verbatim>\<open>text.split()\<close> returns), and words joined by single spaces
  (\<^verbatim>\<open>" ".join(words)\<close>).
\<close>

function split_ws :: "pystr \<Rightarrow> pystr list" where
  "split_ws s =
     (case dropWhile is_space s of
        [] \<Rightarrow> []
      | c # cs \<Rightarrow>
          (c # takeWhile (\<lambda>x. \<not> is_space x) cs) # split_ws (dropWhile (\<lambda>x. \<not> is_space x) cs))"
  by pat_completeness auto
termination
proof (relation "measure length", goal_cases)
  case 1
  show ?case by simp
next
  case (2 s c cs)
  have "length (dropWhile (\<lambda>x. \<not> is_space x) cs) \<le> length cs"
    by (rule length_dropWhile_le)
  moreover have "length (c # cs) \<le> length s"
    using 2 length_dropWhile_le [of is_space s] by simp
  ultimately show ?case by simp
qed

declare split_ws.simps [simp del]

fun join_spaces :: "pystr list \<Rightarrow> pystr" where
  "join_spaces [] = []"
| "join_spaces [w] = w"
| "join_spaces (w # v # ws) = w @ 32 # join_spaces (v # ws)"

text \<open>\<^verbatim>\<open>text.rstrip()\<close>, the right half of \<open>strip\<close>.\<close>

definition rstrip :: "pystr \<Rightarrow> pystr" where
  "rstrip s = rev (dropWhile is_space (rev s))"

subsection \<open>The Keras tokenizer\<close>

text \<open>
  \<^verbatim>\<open>Tokenizer(num_words=max_words)\<close> leaves every other option at its default:
  \<^verbatim>\<open>filters='!"#$%&()*+,-./:;<=>?@[\\]^_`{|}~\t\n'\<close>, \<^verbatim>\<open>lower=True\<close>, \<^verbatim>\<open>split=' '\<close>,
  \<^verbatim>\<open>char_level=False\<close>, \<^verbatim>\<open>oov_token=None\<close>.
  \<^verbatim>\<open>
  def text_to_word_sequence(input_text, filters, lower=True, split=" "):
      if lower:
          input_text = input_text.lower()
      translate_dict = {c: split for c in filters}
      translate_map = str.maketrans(translate_dict)
      input_text = input_text.translate(translate_map)
      seq = input_text.split(split)
      return [i for i in seq if i]
  \<close>
  \<open>lower\<close> is \<^verbatim>\<open>str.lower\<close> on strings of ASCII letters and U+0020: it maps A..Z to
  a..z and leaves every other code point as it is, which \<^verbatim>\<open>str.lower\<close> does not do for
  every code point beyond ASCII. The notebook only tokenizes the results of
  \<open>clean_text\<close>, which hold ASCII letters and U+0020 only (\<open>clean_text_chars\<close> below), and
  every statement below about the tokens of a text is about a cleaned text.
\<close>

definition keras_filters :: pystr where
  "keras_filters =
     [33, 34, 35, 36, 37, 38, 40, 41, 42, 43, 44, 45, 46, 47, 58, 59, 60, 61, 62, 63, 64,
      91, 92, 93, 94, 95, 96, 123, 124, 125, 126, 9, 10]"

definition lower :: "pystr \<Rightarrow> pystr" where
  "lower text = map (\<lambda>c. if 65 \<le> c \<and> c \<le> 90 then c + 32 else c) text"

text \<open>\<^verbatim>\<open>text.split(sep)\<close> for a separator of one character: empty pieces are kept.\<close>

fun split_on :: "codepoint \<Rightarrow> pystr \<Rightarrow> pystr list" where
  "split_on sep [] = [[]]"
| "split_on sep (c # cs) =
     (if c = sep then [] # split_on sep cs
      else (case split_on sep cs of [] \<Rightarrow> [[c]] | w # ws \<Rightarrow> (c # w) # ws))"

definition text_to_word_sequence :: "pystr \<Rightarrow> pystr list" where
  "text_to_word_sequence input_text =
     (let input_text = lower input_text;
          input_text = map (\<lambda>c. if c \<in> set keras_filters then 32 else c) input_text;
          seq = split_on 32 input_text
      in filter (\<lambda>i. i \<noteq> []) seq)"

text \<open>
  The tokenizer object: \<^verbatim>\<open>num_words\<close>, the ordered dictionary \<^verbatim>\<open>word_counts\<close> (keys in
  the order of their first insertion) and the dictionary \<^verbatim>\<open>word_index\<close>. The document
  counters (\<^verbatim>\<open>document_count\<close>, \<^verbatim>\<open>word_docs\<close>, \<^verbatim>\<open>index_docs\<close>) and the inverse
  \<^verbatim>\<open>index_word\<close> are not read by \<^verbatim>\<open>texts_to_sequences\<close> and are left out.
\<close>

record tokenizer =
  num_words :: int
  word_counts :: "(pystr \<times> nat) list"
  word_index :: "(pystr \<times> int) list"

definition Tokenizer :: "int \<Rightarrow> tokenizer" where
  "Tokenizer n = \<lparr>num_words = n, word_counts = [], word_index = []\<rparr>"

text \<open>
  \<^verbatim>\<open>
  for w in seq:
      if w in self.word_counts:
          self.word_counts[w] += 1
      else:
          self.word_counts[w] = 1
  \<close>
\<close>

definition count_word :: "(pystr \<times> nat) list \<Rightarrow> pystr \<Rightarrow> (pystr \<times> nat) list" where
  "count_word wc w =
     (if w \<in> fst ` set wc then map (\<lambda>(k, n). if k = w then (k, n + 1) else (k, n)) wc
      else wc @ [(w, 1)])"

text \<open>
  \<^verbatim>\<open>
  def fit_on_texts(self, texts):
      for text in texts:
          seq = text_to_word_sequence(text, ...)
          for w in seq: ...                       # count_word
      wcounts = list(self.word_counts.items())
      wcounts.sort(key=lambda x: x[1], reverse=True)
      sorted_voc = []                             # oov_token is None
      sorted_voc.extend(wc[0] for wc in wcounts)
      # note that index 0 is reserved, never assigned to an existing word
      self.word_index = dict(zip(sorted_voc, list(range(1, len(sorted_voc) + 1))))
  \<close>
  Python's \<^verbatim>\<open>sort\<close> is stable, also with \<^verbatim>\<open>reverse=True\<close> (equal keys keep their
  original order); \<open>sort_key\<close> on the negated count is the same order.
\<close>

definition fit_on_texts :: "tokenizer \<Rightarrow> pystr list \<Rightarrow> tokenizer" where
  "fit_on_texts tok texts =
     (let counts = foldl (\<lambda>wc text. foldl count_word wc (text_to_word_sequence text))
                     (word_counts tok) texts;
          wcounts = sort_key (\<lambda>(w, n). - int n) counts;
          sorted_voc = map fst wcounts
      in tok\<lparr>word_counts := counts,
             word_index := zip sorted_voc (map int [1 ..< Suc (length sorted_voc)])\<rparr>)"

text \<open>
  \<^verbatim>\<open>
  def texts_to_sequences(self, texts):            # via texts_to_sequences_generator
      num_words = self.num_words
      for text in texts:
          seq = text_to_word_sequence(text, ...)
          vect = []
          for w in seq:
              i = self.word_index.get(w)
              if i is not None:
                  if num_words and i >= num_words:
                      pass                        # oov_token is None: the word is dropped
                  else:
                      vect.append(i)
          yield vect
  \<close>
\<close>

definition texts_to_sequences :: "tokenizer \<Rightarrow> pystr list \<Rightarrow> int list list" where
  "texts_to_sequences tok texts =
     map (\<lambda>text. List.map_filter
            (\<lambda>w. case map_of (word_index tok) w of
                    None \<Rightarrow> None
                  | Some i \<Rightarrow> if num_words tok \<noteq> 0 \<and> num_words tok \<le> i then None else Some i)
            (text_to_word_sequence text)) texts"

text \<open>
  The vocabulary a tokenizer really uses: the entries of \<^verbatim>\<open>word_index\<close> that pass the
  test of \<^verbatim>\<open>texts_to_sequences\<close>. The tokens in their first-seen order are what the keys
  of \<^verbatim>\<open>word_counts\<close> are compared with.
\<close>

definition vocabulary :: "tokenizer \<Rightarrow> (pystr \<times> int) list" where
  "vocabulary tok =
     filter (\<lambda>(w, i). \<not> (num_words tok \<noteq> 0 \<and> num_words tok \<le> i)) (word_index tok)"

primrec first_seen :: "'a list \<Rightarrow> 'a list" where
  "first_seen [] = []"
| "first_seen (x # xs) = x # removeAll x (first_seen xs)"

subsection \<open>\<^verbatim>\<open>pad_sequences\<close>\<close>

text \<open>
  \<^verbatim>\<open>
  def pad_sequences(sequences, maxlen=None, dtype="int32",
                    padding="pre", truncating="pre", value=0.0):
      ...
      x = np.full((num_samples, maxlen) + sample_shape, value, dtype=dtype)
      for idx, s in enumerate(sequences):
          if not len(s):
              continue  # empty list/array was found
          trunc = s[-maxlen:]                     # truncating == "pre"
          trunc = np.asarray(trunc, dtype=dtype)
          x[idx, -len(trunc):] = trunc            # padding == "pre"
      return x
  \<close>
  \<^verbatim>\<open>np.full\<close> raises \<^verbatim>\<open>ValueError\<close> for a negative dimension. \<open>py_suffix n s\<close> is the
  slice \<^verbatim>\<open>s[-n:]\<close>, which is all of \<^verbatim>\<open>s\<close> when \<^verbatim>\<open>n\<close> is 0. \<open>assign_suffix row v\<close> is the
  assignment \<^verbatim>\<open>row[-len(v):] = v\<close> of numpy: the value must have the length of the target
  slice or length one (it is then broadcast), otherwise \<^verbatim>\<open>ValueError\<close> is raised.
\<close>

definition py_suffix :: "nat \<Rightarrow> 'a list \<Rightarrow> 'a list" where
  "py_suffix n s = (if n = 0 then s else drop (length s - n) s)"

definition assign_suffix :: "int list \<Rightarrow> int list \<Rightarrow> error + int list" where
  "assign_suffix row v =
     (let k = length v;
          m = (if k = 0 then length row else min k (length row))
      in if k = m then Inr (take (length row - m) row @ v)
         else if k = 1 then Inr (take (length row - m) row @ replicate m (hd v))
         else Inl ValueError)"

fun pad_rows :: "nat \<Rightarrow> int list list \<Rightarrow> error + int list list" where
  "pad_rows maxlen [] = Inr []"
| "pad_rows maxlen (s # ss) =
     (case (if s = [] then Inr (replicate maxlen 0)
            else assign_suffix (replicate maxlen 0) (py_suffix maxlen s)) of
        Inl e \<Rightarrow> Inl e
      | Inr row \<Rightarrow>
          (case pad_rows maxlen ss of Inl e \<Rightarrow> Inl e | Inr rows \<Rightarrow> Inr (row # rows)))"

definition pad_sequences :: "int list list \<Rightarrow> int \<Rightarrow> error + int list list" where
  "pad_sequences sequences maxlen =
     (if maxlen < 0 then Inl ValueError else pad_rows (nat maxlen) sequences)"

subsection \<open>\<^verbatim>\<open>preprocess_text\<close>\<close>

text \<open>
  \<^verbatim>\<open>
  def preprocess_text(reviews, max_words=5000, max_len=200):
      reviews = [clean_text(review) for review in reviews]  # Clean the reviews
      tokenizer = Tokenizer(num_words=max_words)
      tokenizer.fit_on_texts(reviews)
      sequences = tokenizer.texts_to_sequences(reviews)
      padded_sequences = pad_sequences(sequences, maxlen=max_len)
      return padded_sequences, tokenizer
  \<close>
\<close>

definition preprocess_text ::
  "pystr list \<Rightarrow> int \<Rightarrow> int \<Rightarrow> error + int list list \<times> tokenizer" where
  "preprocess_text reviews max_words max_len =
     (let reviews = map clean_text reviews;
          tokenizer = fit_on_texts (Tokenizer max_words) reviews;
          sequences = texts_to_sequences tokenizer reviews
      in case pad_sequences sequences max_len of
           Inl e \<Rightarrow> Inl e
         | Inr padded_sequences \<Rightarrow> Inr (padded_sequences, tokenizer))"

subsection \<open>\<^verbatim>\<open>encode_labels\<close>\<close>

text \<open>
  \<^verbatim>\<open>
  def encode_labels(sentiments):
      sentiments = sentiments.map({'positive': 1, 'negative': 0}).values
      return sentiments
  \<close>
  \<^verbatim>\<open>Series.map\<close> with a dictionary looks every value up; a value that is not a key
  becomes the missing value NaN, here \<open>None\<close>. No exception is raised for it.
\<close>

definition encode_labels :: "pystr list \<Rightarrow> error + int option list" where
  "encode_labels sentiments =
     (let sentiments = map (map_of [(str ''positive'', 1), (str ''negative'', 0)]) sentiments
      in Inr sentiments)"

subsection \<open>\<^verbatim>\<open>read_csv\<close> with the Python engine\<close>

text \<open>
  The notebook calls \<^verbatim>\<open>pd.read_csv(file_path, engine='python', on_bad_lines='skip')\<close>.
  The Python engine of pandas (\<^verbatim>\<open>pandas/io/parsers/python_parser.py\<close>) reads the file
  through Python's \<^verbatim>\<open>csv.reader\<close>, which splits the text into records at delimiters and
  quotes. A file is modelled as what that reader yields: for each record its list of
  fields, or the \<^verbatim>\<open>csv.Error\<close> it raises for a record it cannot split. The file system is a
  map from paths to files; opening a path that is not there raises
  \<^verbatim>\<open>FileNotFoundError\<close>.
\<close>

datatype csv_record = Fields "pystr list" | Csv_error

datatype bad_lines = Bad_error | Bad_warn | Bad_skip

type_synonym cell = "pystr option"

record dataframe =
  columns :: "pystr list"
  rows :: "cell list list"

text \<open>
  Reading the lines (\<^verbatim>\<open>_next_iter_line\<close>, \<^verbatim>\<open>_next_line\<close>, \<^verbatim>\<open>_remove_empty_lines\<close>):
  \<^verbatim>\<open>
  try:
      line = next(self.data)
      return line
  except csv.Error as e:
      if self.on_bad_lines in (ERROR, WARN):
          self._alert_malformed(msg, row_num)     # ERROR: raise ParserError(msg)
      return None                                 # the record is passed over
  \<close>
  and, with the default \<^verbatim>\<open>skip_blank_lines=True\<close>, a line is kept only if
  \<^verbatim>\<open>len(line) > 1 or len(line) == 1 and line[0].strip()\<close>.
\<close>

definition is_blank :: "pystr list \<Rightarrow> bool" where
  "is_blank line \<longleftrightarrow> line = [] \<or> (length line = 1 \<and> strip (hd line) = [])"

fun next_lines :: "bad_lines \<Rightarrow> csv_record list \<Rightarrow> error + pystr list list" where
  "next_lines on_bad_lines [] = Inr []"
| "next_lines on_bad_lines (Csv_error # recs) =
     (if on_bad_lines = Bad_error then Inl ParserError else next_lines on_bad_lines recs)"
| "next_lines on_bad_lines (Fields line # recs) =
     (case next_lines on_bad_lines recs of
        Inl e \<Rightarrow> Inl e
      | Inr lines \<Rightarrow> Inr (if is_blank line then lines else line # lines))"

text \<open>
  The first line is the header (\<^verbatim>\<open>header=0\<close> is inferred); without one,
  \<^verbatim>\<open>EmptyDataError("No columns to parse from file")\<close> is raised. pandas renames an empty or
  repeated column name (\<^verbatim>\<open>Unnamed: 3\<close>, \<^verbatim>\<open>review.1\<close>); the first column of a name keeps
  it and no new name is \<^verbatim>\<open>review\<close> or \<^verbatim>\<open>sentiment\<close>, so the table keeps the header as
  it is read.

  Index columns (\<^verbatim>\<open>_get_index_name\<close>, with \<^verbatim>\<open>index_col=None\<close>): \<^verbatim>\<open>line\<close> and
  \<^verbatim>\<open>next_line\<close> are the first two lines after the header.
  \<^verbatim>\<open>
  implicit_first_cols = len(line) - self.num_original_columns
  if next_line is not None and len(next_line) == len(line) + self.num_original_columns:
      # column and index names on diff rows
      self.index_col = list(range(len(line)))
      self.buf = self.buf[1:]
      ...
  if implicit_first_cols > 0:
      self._implicit_index = True
      self.index_col = list(range(implicit_first_cols))
  \<close>
  \<open>get_index_name\<close> returns the number of leading index fields of a row and the lines that
  are rows of the table.
\<close>

definition get_index_name :: "nat \<Rightarrow> pystr list list \<Rightarrow> nat \<times> pystr list list" where
  "get_index_name num_original_columns buf =
     (case buf of
        [] \<Rightarrow> (0, [])
      | line # rest \<Rightarrow>
          (case rest of
             [] \<Rightarrow> (length line - num_original_columns, buf)
           | next_line # _ \<Rightarrow>
               if length next_line = length line + num_original_columns then (length line, rest)
               else (length line - num_original_columns, buf)))"

text \<open>
  Rows of the wrong length (\<^verbatim>\<open>_rows_to_cols\<close>): \<^verbatim>\<open>col_len\<close> is the number of columns,
  index columns included.
  \<^verbatim>\<open>
  # Check that there are no rows with too many elements in their row
  # (rows with too few elements are padded with NaN).
  for i, _content in iter_content:
      actual_len = len(_content)
      if actual_len > col_len:
          if self.on_bad_lines in (ERROR, WARN):
              bad_lines.append((row_num, actual_len))   # ERROR: raise ParserError
      else:
          content.append(_content)
  \<close>
  A field is read as missing (NaN) when it is one of the strings of pandas' table of
  missing values (the empty string, \<^verbatim>\<open>NA\<close>, \<^verbatim>\<open>NaN\<close>, \<^verbatim>\<open>null\<close>, ...); the table is the
  argument \<open>na_values\<close>.
\<close>

definition rows_to_cols :: "bad_lines \<Rightarrow> nat \<Rightarrow> pystr list list \<Rightarrow> error + pystr list list" where
  "rows_to_cols on_bad_lines col_len content =
     (if on_bad_lines = Bad_error \<and> (\<exists>row\<in>set content. col_len < length row)
      then Inl ParserError
      else Inr (filter (\<lambda>row. length row \<le> col_len) content))"

definition to_cells :: "pystr list \<Rightarrow> nat \<Rightarrow> nat \<Rightarrow> pystr list \<Rightarrow> cell list" where
  "to_cells na_values k col_len row =
     drop k (map (\<lambda>v. if v \<in> set na_values then None else Some v) row @
             replicate (col_len - length row) None)"

definition read_csv ::
  "(pystr \<rightharpoonup> csv_record list) \<Rightarrow> pystr list \<Rightarrow> pystr \<Rightarrow> bad_lines \<Rightarrow> error + dataframe" where
  "read_csv fs na_values file_path on_bad_lines =
     (case fs file_path of
        None \<Rightarrow> Inl FileNotFoundError
      | Some recs \<Rightarrow>
          (case next_lines on_bad_lines recs of
             Inl e \<Rightarrow> Inl e
           | Inr [] \<Rightarrow> Inl EmptyDataError
           | Inr (header # buf) \<Rightarrow>
               (case get_index_name (length header) buf of
                  (k, content) \<Rightarrow>
                    (case rows_to_cols on_bad_lines (length header + k) content of
                       Inl e \<Rightarrow> Inl e
                     | Inr content \<Rightarrow>
                         Inr \<lparr>columns = header,
                              rows = map (to_cells na_values k (length header + k)) content\<rparr>))))"

subsection \<open>\<^verbatim>\<open>load_data\<close>\<close>





section \<open>Properties of \<^verbatim>\<open>clean_text\<close>\<close>

lemma is_space_32: "is_space 32"
  by (simp add: is_space_def)

lemma letter_not_space: "is_ascii_letter c \<Longrightarrow> \<not> is_space c"
  by (auto simp: is_ascii_letter_def is_space_def)

lemma rstrip_Nil_iff: "rstrip s = [] \<longleftrightarrow> (\<forall>c\<in>set s. is_space c)"
  by (auto simp: rstrip_def dropWhile_eq_Nil_conv)

lemma rstrip_append: "rstrip (a @ b) = (if rstrip b = [] then rstrip a else a @ rstrip b)"
  by (auto simp: rstrip_def dropWhile_append dropWhile_eq_Nil_conv)

lemma rstrip_Cons:
  "rstrip (c # b) = (if rstrip b = [] then (if is_space c then [] else [c]) else c # rstrip b)"
  using rstrip_append [of "[c]" b] by (simp add: rstrip_def)

lemma rstrip_id: "\<forall>c\<in>set s. \<not> is_space c \<Longrightarrow> rstrip s = s"
  by (induction s) (auto simp: rstrip_Cons rstrip_Nil_iff)

lemma strip_rstrip: "strip s = rstrip (dropWhile is_space s)"
  by (simp add: strip_def rstrip_def)

lemma sub_whitespace_word:
  "\<forall>c\<in>set w. \<not> is_space c \<Longrightarrow> sub_whitespace (w @ r) = w @ sub_whitespace r"
  by (induction w) auto

lemma dropWhile_sub_whitespace_start:
  "t = [] \<or> \<not> is_space (hd t) \<Longrightarrow> dropWhile is_space (sub_whitespace t) = sub_whitespace t"
  by (cases t) auto

lemma dropWhile_sub_whitespace:
  "dropWhile is_space (sub_whitespace s) = sub_whitespace (dropWhile is_space s)"
proof (cases s)
  case Nil
  then show ?thesis by simp
next
  case (Cons c cs)
  show ?thesis
  proof (cases "is_space c")
    case False
    then show ?thesis using Cons by simp
  next
    case True
    have "dropWhile is_space cs = [] \<or> \<not> is_space (hd (dropWhile is_space cs))"
      using hd_dropWhile [of is_space cs] by blast
    then have "dropWhile is_space (sub_whitespace (dropWhile is_space cs)) =
        sub_whitespace (dropWhile is_space cs)"
      by (rule dropWhile_sub_whitespace_start)
    then show ?thesis using Cons True by (simp add: is_space_32)
  qed
qed

subsection \<open>Words\<close>

lemma split_ws_Nil:
  assumes "dropWhile is_space s = []"
  shows "split_ws s = []"
  by (subst split_ws.simps) (simp only: assms list.case)

lemma split_ws_Cons:
  assumes "dropWhile is_space s = d # ds"
  shows "split_ws s =
    (d # takeWhile (\<lambda>x. \<not> is_space x) ds) # split_ws (dropWhile (\<lambda>x. \<not> is_space x) ds)"
  by (subst split_ws.simps) (simp only: assms list.case)

lemma split_ws_empty: "split_ws [] = []"
  by (rule split_ws_Nil) simp

lemma split_ws_space_Cons: "is_space c \<Longrightarrow> split_ws (c # s) = split_ws s"
  by (subst split_ws.simps, subst (2) split_ws.simps) simp

text \<open>A word is not empty, holds no whitespace, and is made of characters of the string.\<close>

lemma split_ws_words:
  "w \<in> set (split_ws s) \<Longrightarrow> w \<noteq> [] \<and> (\<forall>c\<in>set w. \<not> is_space c \<and> c \<in> set s)"
proof (induction s rule: split_ws.induct)
  case (1 s)
  show ?case
  proof (cases "dropWhile is_space s")
    case Nil
    with 1(2) show ?thesis by (simp add: split_ws_Nil)
  next
    case (Cons d ds)
    let ?w = "d # takeWhile (\<lambda>x. \<not> is_space x) ds"
    let ?r = "dropWhile (\<lambda>x. \<not> is_space x) ds"
    have d: "\<not> is_space d" using hd_dropWhile [of is_space s] Cons by auto
    have sub: "set (d # ds) \<subseteq> set s"
      using set_dropWhileD [of _ is_space s] unfolding Cons by blast
    from 1(2) have "w = ?w \<or> w \<in> set (split_ws ?r)"
      by (simp add: split_ws_Cons [OF Cons])
    then show ?thesis
    proof
      assume eq: "w = ?w"
      have "\<forall>c\<in>set (takeWhile (\<lambda>x. \<not> is_space x) ds). \<not> is_space c \<and> c \<in> set ds"
        by (auto dest: set_takeWhileD)
      with eq d sub show ?thesis by auto
    next
      assume "w \<in> set (split_ws ?r)"
      then have "w \<noteq> [] \<and> (\<forall>c\<in>set w. \<not> is_space c \<and> c \<in> set ?r)"
        by (rule 1(1) [OF Cons])
      moreover have "set ?r \<subseteq> set ds" by (auto dest: set_dropWhileD)
      ultimately show ?thesis using sub by auto
    qed
  qed
qed

lemma split_ws_word_append:
  assumes "w \<noteq> []" "\<forall>c\<in>set w. \<not> is_space c" "r = [] \<or> is_space (hd r)"
  shows "split_ws (w @ r) = w # split_ws r"
proof -
  obtain d ds where w: "w = d # ds" using assms(1) by (cases w) auto
  have ds: "\<forall>c\<in>set ds. \<not> is_space c" and d: "\<not> is_space d" using assms(2) w by auto
  have dw: "dropWhile is_space (w @ r) = d # (ds @ r)" using w d by simp
  have tw: "takeWhile (\<lambda>x. \<not> is_space x) (ds @ r) = ds"
    using ds assms(3) by (cases r) (auto simp: takeWhile_append2)
  have dr: "dropWhile (\<lambda>x. \<not> is_space x) (ds @ r) = r"
    using ds assms(3) by (cases r) (auto simp: dropWhile_append2)
  show ?thesis using split_ws_Cons [OF dw] unfolding tw dr w by simp
qed

lemma split_ws_join:
  "\<forall>w\<in>set ws. w \<noteq> [] \<and> (\<forall>c\<in>set w. \<not> is_space c) \<Longrightarrow> split_ws (join_spaces ws) = ws"
proof (induction ws rule: join_spaces.induct)
  case 1
  show ?case by (simp add: split_ws_empty)
next
  case (2 w)
  then show ?case using split_ws_word_append [of w "[]"] by (simp add: split_ws_empty)
next
  case (3 w v ws)
  have "split_ws (w @ 32 # join_spaces (v # ws)) = w # split_ws (32 # join_spaces (v # ws))"
    using 3(2) by (intro split_ws_word_append) (auto simp: is_space_32)
  also have "split_ws (32 # join_spaces (v # ws)) = split_ws (join_spaces (v # ws))"
    by (rule split_ws_space_Cons [OF is_space_32])
  also have "\<dots> = v # ws" using 3 by simp
  finally show ?case by simp
qed

lemma set_join_spaces: "set (join_spaces ws) \<subseteq> insert 32 (\<Union> (set ` set ws))"
  by (induction ws rule: join_spaces.induct) auto

subsection \<open>Collapsing and trimming is joining the words\<close>

lemma rstrip_sub_whitespace:
  "rstrip (sub_whitespace (dropWhile is_space s)) = join_spaces (split_ws s)"
proof (induction s rule: split_ws.induct)
  case (1 s)
  show ?case
  proof (cases "dropWhile is_space s")
    case Nil
    show ?thesis unfolding Nil split_ws_Nil [OF Nil] by (simp add: rstrip_def)
  next
    case (Cons d ds)
    let ?w = "d # takeWhile (\<lambda>x. \<not> is_space x) ds"
    let ?r = "dropWhile (\<lambda>x. \<not> is_space x) ds"
    have d: "\<not> is_space d" using hd_dropWhile [of is_space s] Cons by auto
    have w: "\<forall>c\<in>set ?w. \<not> is_space c" using d by (auto dest: set_takeWhileD)
    have IH: "rstrip (sub_whitespace (dropWhile is_space ?r)) = join_spaces (split_ws ?r)"
      by (rule 1 [OF Cons])
    have "sub_whitespace (?w @ ?r) = ?w @ sub_whitespace ?r"
      by (rule sub_whitespace_word [OF w])
    then have sub: "sub_whitespace (d # ds) = ?w @ sub_whitespace ?r" by simp
    show ?thesis
    proof (cases ?r)
      case Nil
      have "split_ws ?r = []" unfolding Nil by (rule split_ws_empty)
      then have "join_spaces (split_ws s) = ?w" by (simp add: split_ws_Cons [OF Cons])
      moreover have "rstrip (sub_whitespace (d # ds)) = ?w"
        unfolding sub Nil using rstrip_id [OF w] by simp
      ultimately show ?thesis unfolding Cons by simp
    next
      case r: (Cons e es)
      have e: "is_space e" using hd_dropWhile [of "\<lambda>x. \<not> is_space x" ds] r by auto
      have sr: "sub_whitespace ?r = 32 # sub_whitespace (dropWhile is_space ?r)"
        unfolding r using e by simp
      show ?thesis
      proof (cases "split_ws ?r")
        case Nil
        then have "rstrip (sub_whitespace (dropWhile is_space ?r)) = []" using IH by simp
        then have "rstrip (sub_whitespace ?r) = []"
          unfolding sr by (simp add: rstrip_Cons is_space_32)
        then have "rstrip (sub_whitespace (d # ds)) = ?w"
          unfolding sub using rstrip_id [OF w] by (simp only: rstrip_append) simp
        moreover have "join_spaces (split_ws s) = ?w"
          by (simp add: split_ws_Cons [OF Cons] Nil)
        ultimately show ?thesis unfolding Cons by simp
      next
        case v: (Cons v vs)
        have "v \<noteq> []" using split_ws_words [of v ?r] v by simp
        then have ne: "join_spaces (split_ws ?r) \<noteq> []"
          unfolding v by (cases vs) auto
        then have "rstrip (sub_whitespace ?r) = 32 # join_spaces (split_ws ?r)"
          unfolding sr using IH by (simp add: rstrip_Cons)
        then have "rstrip (sub_whitespace (d # ds)) = ?w @ 32 # join_spaces (split_ws ?r)"
          unfolding sub by (simp only: rstrip_append) simp
        moreover have "join_spaces (split_ws s) = ?w @ 32 # join_spaces (split_ws ?r)"
          by (simp add: split_ws_Cons [OF Cons] v)
        ultimately show ?thesis unfolding Cons by simp
      qed
    qed
  qed
qed

lemma strip_sub_whitespace: "strip (sub_whitespace s) = join_spaces (split_ws s)"
  by (simp only: strip_rstrip dropWhile_sub_whitespace rstrip_sub_whitespace)

lemma clean_text_words: "clean_text text = join_spaces (split_ws (sub_non_letter text))"
  unfolding clean_text_def by (rule strip_sub_whitespace)

lemma clean_text_chars: "c \<in> set (clean_text text) \<Longrightarrow> is_ascii_letter c \<or> c = 32"
proof -
  assume "c \<in> set (clean_text text)"
  then have "c = 32 \<or> (\<exists>w\<in>set (split_ws (sub_non_letter text)). c \<in> set w)"
    using set_join_spaces [of "split_ws (sub_non_letter text)"] unfolding clean_text_words by auto
  then show ?thesis
  proof
    assume "c = 32"
    then show ?thesis ..
  next
    assume "\<exists>w\<in>set (split_ws (sub_non_letter text)). c \<in> set w"
    then obtain w where "w \<in> set (split_ws (sub_non_letter text))" "c \<in> set w" by blast
    then have "\<not> is_space c \<and> c \<in> set (sub_non_letter text)" using split_ws_words by blast
    then show ?thesis by (auto simp: sub_non_letter_def)
  qed
qed

lemma sub_non_letter_clean_text: "sub_non_letter (clean_text text) = clean_text text"
  unfolding sub_non_letter_def [of "clean_text text"]
  by (rule filter_True) (auto dest: clean_text_chars simp: is_space_32)

lemma split_ws_clean_text: "split_ws (clean_text text) = split_ws (sub_non_letter text)"
  unfolding clean_text_words by (rule split_ws_join) (use split_ws_words in blast)

lemma filter_not_dropWhile: "filter (\<lambda>c. \<not> P c) (dropWhile P s) = filter (\<lambda>c. \<not> P c) s"
  by (induction s) auto

lemma concat_split_ws: "concat (split_ws s) = filter (\<lambda>c. \<not> is_space c) s"
proof (induction s rule: split_ws.induct)
  case (1 s)
  have s: "filter (\<lambda>c. \<not> is_space c) s = filter (\<lambda>c. \<not> is_space c) (dropWhile is_space s)"
    by (rule filter_not_dropWhile [symmetric])
  show ?case
  proof (cases "dropWhile is_space s")
    case Nil
    show ?thesis by (subst s) (simp add: split_ws_Nil [OF Nil] Nil)
  next
    case (Cons d ds)
    let ?w = "takeWhile (\<lambda>x. \<not> is_space x) ds"
    let ?r = "dropWhile (\<lambda>x. \<not> is_space x) ds"
    have d: "\<not> is_space d" using hd_dropWhile [of is_space s] Cons by auto
    have "filter (\<lambda>c. \<not> is_space c) ?w = ?w"
      by (rule filter_True) (auto dest: set_takeWhileD)
    then have "filter (\<lambda>c. \<not> is_space c) (?w @ ?r) = ?w @ filter (\<lambda>c. \<not> is_space c) ?r"
      by (simp only: filter_append)
    then have "filter (\<lambda>c. \<not> is_space c) ds = ?w @ concat (split_ws ?r)"
      using 1 [OF Cons] by simp
    then show ?thesis using d by (subst s) (simp add: split_ws_Cons [OF Cons] Cons)
  qed
qed

lemma filter_letter_join_spaces:
  "filter is_ascii_letter (join_spaces ws) = filter is_ascii_letter (concat ws)"
  by (induction ws rule: join_spaces.induct) (use letter_not_space is_space_32 in auto)

lemma filter_letters_clean_text:
  "filter is_ascii_letter (clean_text text) = filter is_ascii_letter text"
proof -
  have "filter is_ascii_letter (clean_text text) =
      filter is_ascii_letter (filter (\<lambda>c. \<not> is_space c) (sub_non_letter text))"
    by (simp only: clean_text_words filter_letter_join_spaces concat_split_ws)
  also have "\<dots> = filter is_ascii_letter text"
    unfolding sub_non_letter_def filter_filter
    by (rule filter_cong) (use letter_not_space in auto)
  finally show ?thesis .
qed

lemma clean_text_example: "clean_text (str ''Hi!! 123  there'') = str ''Hi there''"
  by (simp add: clean_text_def str_def sub_non_letter_def strip_def is_space_def
      is_ascii_letter_def)

text \<open>
  Claim C6. For every input string, \<open>clean_text\<close> removes every character that is not an
  ASCII letter or whitespace, collapses every run of whitespace into a single space and
  trims both ends: the result is the whitespace-separated words of the string without its
  other characters, joined by single spaces, and nothing but ASCII letters and U+0020
  occurs in it. In particular \<^verbatim>\<open>"Hi!! 123  there"\<close> becomes \<^verbatim>\<open>"Hi there"\<close>.
\<close>

theorem clean_text_normalizes:
  "clean_text text =
     join_spaces (split_ws (filter (\<lambda>c. is_ascii_letter c \<or> is_space c) text)) \<and>
   set (clean_text text) \<subseteq> {c. is_ascii_letter c \<or> c = 32} \<and>
   filter is_ascii_letter (clean_text text) = filter is_ascii_letter text \<and>
   clean_text (str ''Hi!! 123  there'') = str ''Hi there''"
proof (intro conjI)
  show "clean_text text =
      join_spaces (split_ws (filter (\<lambda>c. is_ascii_letter c \<or> is_space c) text))"
    using clean_text_words [of "text"] by (simp only: sub_non_letter_def)
  show "set (clean_text text) \<subseteq> {c. is_ascii_letter c \<or> c = 32}"
    using clean_text_chars by blast
  show "filter is_ascii_letter (clean_text text) = filter is_ascii_letter text"
    by (rule filter_letters_clean_text)
  show "clean_text (str ''Hi!! 123  there'') = str ''Hi there''"
    by (rule clean_text_example)
qed

text \<open>
  Claim C7. \<open>clean_text\<close> is idempotent: cleaning a cleaned string changes nothing.
\<close>

theorem clean_text_idempotent: "clean_text (clean_text x) = clean_text x"
proof -
  have "clean_text (clean_text x) = join_spaces (split_ws (clean_text x))"
    by (simp only: clean_text_words [of "clean_text x"] sub_non_letter_clean_text)
  also have "\<dots> = join_spaces (split_ws (sub_non_letter x))"
    by (simp only: split_ws_clean_text)
  finally show ?thesis by (simp only: clean_text_words [of x])
qed

section \<open>Padding and truncation\<close>

text \<open>
  For a positive \<^verbatim>\<open>maxlen\<close> no row makes \<^verbatim>\<open>pad_sequences\<close> fail, and every row is the
  last \<^verbatim>\<open>maxlen\<close> entries of its sequence behind the zeros that fill it up.
\<close>

lemma assign_suffix_fits:
  assumes "0 < length v" "length v \<le> n"
  shows "assign_suffix (replicate n 0) v = Inr (replicate (n - length v) 0 @ v)"
proof -
  have "min (length v) n = length v" using assms by simp
  then show ?thesis using assms unfolding assign_suffix_def Let_def by simp
qed

lemma pad_row:
  assumes "0 < maxlen"
  shows "(if s = [] then Inr (replicate maxlen 0)
          else assign_suffix (replicate maxlen 0) (py_suffix maxlen s)) =
         Inr (replicate (maxlen - length s) 0 @ drop (length s - maxlen) s)"
proof (cases "s = []")
  case True
  then show ?thesis by simp
next
  case False
  let ?t = "drop (length s - maxlen) s"
  have t: "py_suffix maxlen s = ?t" using assms by (simp add: py_suffix_def)
  have len: "length ?t = min (length s) maxlen" by simp
  have pos: "0 < length ?t" using False assms by simp
  have "assign_suffix (replicate maxlen 0) ?t = Inr (replicate (maxlen - length ?t) 0 @ ?t)"
    using pos by (intro assign_suffix_fits) simp_all
  moreover have "maxlen - length ?t = maxlen - length s" by simp
  ultimately show ?thesis using False t by simp
qed

lemma pad_rows_pos:
  "0 < maxlen \<Longrightarrow>
   pad_rows maxlen ss = Inr (map (\<lambda>s. replicate (maxlen - length s) 0 @ drop (length s - maxlen) s) ss)"
proof (induction ss)
  case Nil
  show ?case by simp
next
  case (Cons s ss)
  show ?case
    by (simp only: pad_rows.simps pad_row [OF Cons.prems] Cons.IH [OF Cons.prems] sum.case list.map)
qed

lemma pad_sequences_pos:
  "0 < max_len \<Longrightarrow>
   pad_sequences ss max_len =
     Inr (map (\<lambda>s. replicate (nat max_len - length s) 0 @ drop (length s - nat max_len) s) ss)"
  unfolding pad_sequences_def by (simp add: pad_rows_pos)

lemma preprocess_text_pos:
  "0 < max_len \<Longrightarrow>
   preprocess_text reviews max_words max_len =
     Inr (map (\<lambda>s. replicate (nat max_len - length s) 0 @ drop (length s - nat max_len) s)
            (texts_to_sequences (fit_on_texts (Tokenizer max_words) (map clean_text reviews))
               (map clean_text reviews)),
          fit_on_texts (Tokenizer max_words) (map clean_text reviews))"
  unfolding preprocess_text_def Let_def by (simp add: pad_sequences_pos)

lemma length_texts_to_sequences: "length (texts_to_sequences tok texts) = length texts"
  by (simp add: texts_to_sequences_def)

lemma transform_example:
  "pad_sequences
     (texts_to_sequences (fit_on_texts (Tokenizer 10) [str ''a b c''])
        [str '''', str ''a'', str ''a b'', str ''a b c a b c'']) 2 =
   Inr [[0, 0], [0, 1], [1, 2], [2, 3]]"
  by code_simp

text \<open>
  Claim C1. For a positive \<^verbatim>\<open>max_len\<close>, every tokenizer and every list of texts, of any
  number of tokens, \<^verbatim>\<open>texts_to_sequences\<close> followed by \<^verbatim>\<open>pad_sequences\<close> returns one row
  for each text and every row has exactly \<^verbatim>\<open>max_len\<close> elements; so does
  \<open>preprocess_text\<close> for every list of reviews.
\<close>

theorem transform_length:
  assumes "0 < max_len"
  shows "(\<exists>X. pad_sequences (texts_to_sequences tok texts) max_len = Inr X \<and>
            length X = length texts \<and> (\<forall>row\<in>set X. length row = nat max_len)) \<and>
         (\<exists>X t. preprocess_text reviews max_words max_len = Inr (X, t) \<and>
            length X = length reviews \<and> (\<forall>row\<in>set X. length row = nat max_len))"
  using assms
  by (auto simp: pad_sequences_pos preprocess_text_pos length_texts_to_sequences)

text \<open>
  The theorem at \<^verbatim>\<open>max_len = 2\<close>, on texts of 0, 1, 2 and 6 tokens.
\<close>

theorem transform_length_witness:
  "(0::int) < 2 \<and>
   pad_sequences
     (texts_to_sequences (fit_on_texts (Tokenizer 10) [str ''a b c''])
        [str '''', str ''a'', str ''a b'', str ''a b c a b c'']) 2 =
   Inr [[0, 0], [0, 1], [1, 2], [2, 3]]"
proof -
  have h: "(0::int) < 2" by simp
  from transform_length [OF h, of "fit_on_texts (Tokenizer 10) [str ''a b c'']"
      "[str '''', str ''a'', str ''a b'', str ''a b c a b c'']"]
  obtain X where "pad_sequences
     (texts_to_sequences (fit_on_texts (Tokenizer 10) [str ''a b c''])
        [str '''', str ''a'', str ''a b'', str ''a b c a b c'']) 2 = Inr X"
    and "\<forall>row\<in>set X. length row = nat 2"
    by blast
  then show ?thesis using h transform_example by simp
qed

section \<open>The fitted vocabulary\<close>

subsection \<open>Counting words\<close>

lemma foldl_nested:
  "foldl (\<lambda>a t. foldl f a (g t)) a texts = foldl f a (concat (map g texts))"
  by (induction texts arbitrary: a) simp_all

lemma set_first_seen: "set (first_seen ws) = set ws"
  by (induction ws) auto

lemma distinct_first_seen: "distinct (first_seen ws)"
  by (induction ws) (auto simp: distinct_removeAll)

lemma first_seen_snoc:
  "first_seen (ws @ [x]) = (if x \<in> set ws then first_seen ws else first_seen ws @ [x])"
proof (induction ws)
  case Nil
  show ?case by simp
next
  case (Cons a ws)
  show ?case
  proof (cases "x = a")
    case True
    then show ?thesis using Cons by (simp add: removeAll_append)
  next
    case False
    then show ?thesis using Cons by (simp add: removeAll_append)
  qed
qed

lemma count_list_notin: "x \<notin> set ws \<Longrightarrow> count_list ws x = 0"
  by (induction ws) auto

lemma foldl_count_word:
  "foldl count_word [] ws = map (\<lambda>w. (w, count_list ws w)) (first_seen ws)"
proof (induction ws rule: rev_induct)
  case Nil
  show ?case by simp
next
  case (snoc x ws)
  let ?wc = "map (\<lambda>w. (w, count_list ws w)) (first_seen ws)"
  have keys: "fst ` set ?wc = set ws" by (simp add: image_image set_first_seen)
  have step: "foldl count_word [] (ws @ [x]) = count_word ?wc x" using snoc by simp
  show ?case
  proof (cases "x \<in> set ws")
    case True
    then have "count_word ?wc x = map (\<lambda>(k, n). if k = x then (k, n + 1) else (k, n)) ?wc"
      unfolding count_word_def keys by simp
    also have "\<dots> = map (\<lambda>w. (w, count_list (ws @ [x]) w)) (first_seen ws)"
      by simp
    finally show ?thesis using True step by (simp only: first_seen_snoc if_True)
  next
    case False
    then have "count_word ?wc x = ?wc @ [(x, 1)]"
      unfolding count_word_def keys by simp
    also have "\<dots> = map (\<lambda>w. (w, count_list (ws @ [x]) w)) (first_seen ws @ [x])"
      using False by (auto simp: count_list_notin set_first_seen)
    finally show ?thesis using False step by (simp only: first_seen_snoc if_False)
  qed
qed

subsection \<open>Ranking words\<close>

lemma insort_key_map:
  "insort_key f (g x) (map g ys) = map g (insort_key (\<lambda>y. f (g y)) x ys)"
  by (induction ys) simp_all

lemma sort_key_map: "sort_key f (map g xs) = map g (sort_key (\<lambda>y. f (g y)) xs)"
  by (induction xs) (simp_all add: insort_key_map)

lemma sorted_voc_desc:
  "sorted_wrt (\<lambda>a b. f b \<le> f a) (sort_key (\<lambda>w. - int (f w)) xs)"
proof -
  have "sorted (map (\<lambda>w. - int (f w)) (sort_key (\<lambda>w. - int (f w)) xs))"
    by (rule sorted_sort_key)
  then show ?thesis by (simp add: sorted_map)
qed

lemma sorted_voc_stable:
  "filter (\<lambda>w. f w = k) (sort_key (\<lambda>w. - int (f w)) xs) = filter (\<lambda>w. f w = k) xs"
  using sort_key_stable [of "\<lambda>w. - int (f w)" "- int k" xs] by simp

lemma filter_zip_upt:
  "filter (\<lambda>(w, i). i < m) (zip xs (map int [k ..< k + length xs])) =
   take (nat m - k) (zip xs (map int [k ..< k + length xs]))"
proof (induction xs arbitrary: k)
  case Nil
  show ?case by simp
next
  case (Cons x xs)
  have "[k ..< k + length (x # xs)] = k # [Suc k ..< k + length (x # xs)]"
    by (rule upt_conv_Cons) simp
  then have upt: "[k ..< k + length (x # xs)] = k # [Suc k ..< Suc k + length xs]"
    by simp
  show ?case
  proof (cases "int k < m")
    case True
    then have "nat m - k = Suc (nat m - Suc k)" by linarith
    then show ?thesis unfolding upt using True Cons [of "Suc k"] by simp
  next
    case False
    then have "nat m - k = 0" "nat m - Suc k = 0" by linarith+
    then show ?thesis unfolding upt using False Cons [of "Suc k"] by simp
  qed
qed

lemma num_words_fit: "num_words (fit_on_texts tok texts) = num_words tok"
  by (simp add: fit_on_texts_def Let_def)

lemma word_counts_fit:
  "word_counts (fit_on_texts (Tokenizer n) corpus) =
     (let ws = concat (map text_to_word_sequence corpus)
      in map (\<lambda>w. (w, count_list ws w)) (first_seen ws))"
  by (simp add: fit_on_texts_def Tokenizer_def Let_def foldl_nested foldl_count_word)

lemma word_index_fit:
  "word_index (fit_on_texts (Tokenizer n) corpus) =
     (let ws = concat (map text_to_word_sequence corpus);
          voc = sort_key (\<lambda>w. - int (count_list ws w)) (first_seen ws)
      in zip voc (map int [1 ..< Suc (length voc)]))"
  by (simp add: fit_on_texts_def Tokenizer_def Let_def foldl_nested foldl_count_word
      sort_key_map comp_def del: upt_Suc)

lemma voc_fit:
  "map fst (word_index (fit_on_texts (Tokenizer n) corpus)) =
     (let ws = concat (map text_to_word_sequence corpus)
      in sort_key (\<lambda>w. - int (count_list ws w)) (first_seen ws))"
  by (simp add: word_index_fit Let_def del: upt_Suc)

lemma vocabulary_fit:
  assumes "0 < n"
  shows "vocabulary (fit_on_texts (Tokenizer n) corpus) =
         take (nat n - 1) (word_index (fit_on_texts (Tokenizer n) corpus))"
proof -
  let ?tok = "fit_on_texts (Tokenizer n) corpus"
  define voc where "voc = map fst (word_index ?tok)"
  have wi: "word_index ?tok = zip voc (map int [1 ..< 1 + length voc])"
    unfolding voc_def voc_fit by (simp add: word_index_fit Let_def del: upt_Suc)
  have "(\<lambda>(w, i). \<not> (n \<noteq> 0 \<and> n \<le> i)) = (\<lambda>(w :: pystr, i). i < n)"
    using assms by auto
  then have "vocabulary ?tok = filter (\<lambda>(w, i). i < n) (word_index ?tok)"
    by (simp add: vocabulary_def num_words_fit Tokenizer_def)
  then show ?thesis unfolding wi by (simp only: filter_zip_upt)
qed

lemma map_of_filter_distinct:
  "distinct (map fst xs) \<Longrightarrow>
   map_of (filter (\<lambda>(k, v). P v) xs) k =
     (case map_of xs k of None \<Rightarrow> None | Some v \<Rightarrow> if P v then Some v else None)"
proof (induction xs)
  case Nil
  show ?case by simp
next
  case (Cons a xs)
  obtain a1 a2 where a: "a = (a1, a2)" by (cases a)
  have "map_of xs a1 = None" using Cons.prems a by (simp add: map_of_eq_None_iff)
  then show ?case using Cons a by (auto split: option.splits)
qed

lemma texts_to_sequences_vocabulary:
  assumes "distinct (map fst (word_index tok))"
  shows "texts_to_sequences tok texts =
         map (\<lambda>t. List.map_filter (map_of (vocabulary tok)) (text_to_word_sequence t)) texts"
proof -
  have "map_of (vocabulary tok) w =
      (case map_of (word_index tok) w of
         None \<Rightarrow> None
       | Some i \<Rightarrow> if num_words tok \<noteq> 0 \<and> num_words tok \<le> i then None else Some i)" for w
    unfolding vocabulary_def
    by (subst map_of_filter_distinct [OF assms]) (auto split: option.splits)
  then show ?thesis unfolding texts_to_sequences_def by presburger
qed

subsection \<open>The words of a cleaned text\<close>

lemma split_on_no_sep: "sep \<notin> set w \<Longrightarrow> split_on sep w = [w]"
  by (induction w) auto

lemma split_on_append: "sep \<notin> set w \<Longrightarrow> split_on sep (w @ sep # r) = w # split_on sep r"
  by (induction w) auto

lemma split_on_join:
  "\<forall>w\<in>set ws. w \<noteq> [] \<and> 32 \<notin> set w \<Longrightarrow>
   filter (\<lambda>i. i \<noteq> []) (split_on 32 (join_spaces ws)) = ws"
  by (induction ws rule: join_spaces.induct) (simp_all add: split_on_no_sep split_on_append)

lemma map_join_spaces: "h 32 = 32 \<Longrightarrow> map h (join_spaces ws) = join_spaces (map (map h) ws)"
  by (induction ws rule: join_spaces.induct) simp_all

lemma lower_letter:
  "is_ascii_letter c \<Longrightarrow>
   97 \<le> (if 65 \<le> c \<and> c \<le> 90 then c + 32 else c) \<and>
   (if 65 \<le> c \<and> c \<le> 90 then c + 32 else c) \<le> 122"
  unfolding is_ascii_letter_def by (cases "65 \<le> c \<and> c \<le> 90") simp_all

lemma lower_chars:
  assumes "\<forall>c\<in>set w. is_ascii_letter c"
  shows "\<forall>c\<in>set (lower w). 97 \<le> c \<and> c \<le> 122"
proof
  fix c
  assume "c \<in> set (lower w)"
  then obtain d where d: "d \<in> set w" and c: "c = (if 65 \<le> d \<and> d \<le> 90 then d + 32 else d)"
    unfolding lower_def by auto
  from assms d have "is_ascii_letter d" by simp
  then show "97 \<le> c \<and> c \<le> 122" unfolding c by (rule lower_letter)
qed

lemma filters_not_lower: "\<forall>c\<in>set keras_filters. \<not> (97 \<le> c \<and> c \<le> 122 \<or> c = 32)"
  by (simp add: keras_filters_def)

lemma not_filtered: "97 \<le> c \<and> c \<le> 122 \<or> c = 32 \<Longrightarrow> c \<notin> set keras_filters"
  using filters_not_lower by blast

lemma text_to_word_sequence_join:
  assumes "\<forall>w\<in>set ws. w \<noteq> [] \<and> (\<forall>c\<in>set w. is_ascii_letter c)"
  shows "text_to_word_sequence (join_spaces ws) = map lower ws"
proof -
  let ?tr = "\<lambda>c. if c \<in> set keras_filters then 32 else c"
  have low: "lower (join_spaces ws) = join_spaces (map lower ws)"
    unfolding lower_def by (subst map_join_spaces) (simp_all add: comp_def)
  have "map (map ?tr) (map lower ws) = map lower ws"
  proof -
    have "map ?tr (lower w) = lower w" if "w \<in> set ws" for w
    proof -
      have "\<forall>c\<in>set (lower w). 97 \<le> c \<and> c \<le> 122"
        using assms that by (intro lower_chars) auto
      then have "\<forall>c\<in>set (lower w). ?tr c = c" using not_filtered by auto
      then show ?thesis by (simp add: map_idI)
    qed
    then show ?thesis by simp
  qed
  moreover have "map ?tr (join_spaces (map lower ws)) = join_spaces (map (map ?tr) (map lower ws))"
    using not_filtered [of 32] by (intro map_join_spaces) simp
  ultimately have tr: "map ?tr (join_spaces (map lower ws)) = join_spaces (map lower ws)"
    by (simp only:)
  have "\<forall>w\<in>set (map lower ws). w \<noteq> [] \<and> 32 \<notin> set w"
  proof
    fix v assume "v \<in> set (map lower ws)"
    then obtain w where w: "w \<in> set ws" and v: "v = lower w" by auto
    have "\<forall>c\<in>set (lower w). 97 \<le> c \<and> c \<le> 122"
      using assms w by (intro lower_chars) auto
    then have "32 \<notin> set (lower w)" by auto
    moreover have "lower w \<noteq> []" using assms w by (auto simp: lower_def)
    ultimately show "v \<noteq> [] \<and> 32 \<notin> set v" unfolding v by simp
  qed
  then have "filter (\<lambda>i. i \<noteq> []) (split_on 32 (join_spaces (map lower ws))) = map lower ws"
    by (rule split_on_join)
  then show ?thesis unfolding text_to_word_sequence_def Let_def low tr .
qed

lemma text_to_word_sequence_clean_text:
  "text_to_word_sequence (clean_text r) = map lower (split_ws (clean_text r))"
proof -
  let ?ws = "split_ws (sub_non_letter r)"
  have "\<forall>w\<in>set ?ws. w \<noteq> [] \<and> (\<forall>c\<in>set w. is_ascii_letter c)"
  proof
    fix w assume "w \<in> set ?ws"
    then have "w \<noteq> [] \<and> (\<forall>c\<in>set w. \<not> is_space c \<and> c \<in> set (sub_non_letter r))"
      by (rule split_ws_words)
    then show "w \<noteq> [] \<and> (\<forall>c\<in>set w. is_ascii_letter c)"
      by (auto simp: sub_non_letter_def)
  qed
  then have "text_to_word_sequence (join_spaces ?ws) = map lower ?ws"
    by (rule text_to_word_sequence_join)
  then show ?thesis by (simp only: split_ws_clean_text clean_text_words [symmetric])
qed

subsection \<open>The vocabulary\<close>

lemma fit_example:
  "word_index (fit_on_texts (Tokenizer 2) [str ''a a b'', str ''b c'']) =
     [(str ''a'', 1), (str ''b'', 2), (str ''c'', 3)] \<and>
   vocabulary (fit_on_texts (Tokenizer 2) [str ''a a b'', str ''b c'']) = [(str ''a'', 1)] \<and>
   texts_to_sequences (fit_on_texts (Tokenizer 2) [str ''a a b'', str ''b c''])
     [str ''a a b'', str ''b c''] = [[1, 1], []]"
  by code_simp

lemma clean_text_corpus_example:
  "map clean_text [str ''a a b'', str ''b c''] = [str ''a a b'', str ''b c'']"
  by (simp add: clean_text_def str_def sub_non_letter_def strip_def is_space_def
      is_ascii_letter_def)

lemma tokens_of_cleaned:
  "concat (map text_to_word_sequence (map clean_text reviews)) =
   concat (map (\<lambda>r. map lower (split_ws (clean_text r))) reviews)"
  by (simp add: text_to_word_sequence_clean_text comp_def)

text \<open>
  What fitting does on the cleaned reviews: every distinct token is counted over the whole
  corpus, \<^verbatim>\<open>word_counts\<close> keeps the tokens in first-seen order, and \<^verbatim>\<open>word_index\<close> gives
  them the ids 1, 2, ... in the order of descending count, tokens of equal count staying
  in first-seen order.
\<close>

lemma fit_on_texts_ranking:
  "(let tok = fit_on_texts (Tokenizer max_words) (map clean_text reviews);
        ws = concat (map (\<lambda>r. map lower (split_ws (clean_text r))) reviews);
        voc = map fst (word_index tok)
    in word_counts tok = map (\<lambda>w. (w, count_list ws w)) (first_seen ws) \<and>
       distinct voc \<and> set voc = set ws \<and>
       word_index tok = zip voc (map int [1 ..< Suc (length voc)]) \<and>
       sorted_wrt (\<lambda>a b. count_list ws b \<le> count_list ws a) voc \<and>
       (\<forall>n. filter (\<lambda>w. count_list ws w = n) voc =
            filter (\<lambda>w. count_list ws w = n) (first_seen ws)))"
proof -
  let ?tok = "fit_on_texts (Tokenizer max_words) (map clean_text reviews)"
  let ?ws = "concat (map (\<lambda>r. map lower (split_ws (clean_text r))) reviews)"
  let ?voc = "map fst (word_index ?tok)"
  let ?cnt = "count_list ?ws"
  have voc: "?voc = sort_key (\<lambda>w. - int (?cnt w)) (first_seen ?ws)"
    by (simp only: voc_fit Let_def tokens_of_cleaned)
  have 1: "word_counts ?tok = map (\<lambda>w. (w, ?cnt w)) (first_seen ?ws)"
    by (simp only: word_counts_fit Let_def tokens_of_cleaned)
  have 2: "distinct ?voc" unfolding voc by (simp add: distinct_first_seen)
  have 3: "set ?voc = set ?ws" unfolding voc by (simp add: set_first_seen)
  have 4: "word_index ?tok = zip ?voc (map int [1 ..< Suc (length ?voc)])"
    unfolding voc by (simp only: word_index_fit Let_def tokens_of_cleaned)
  have 5: "sorted_wrt (\<lambda>a b. ?cnt b \<le> ?cnt a) ?voc"
    unfolding voc by (rule sorted_voc_desc)
  have 6: "filter (\<lambda>w. ?cnt w = n) ?voc = filter (\<lambda>w. ?cnt w = n) (first_seen ?ws)" for n
    unfolding voc by (rule sorted_voc_stable)
  show ?thesis unfolding Let_def using 1 2 3 4 5 6 by blast
qed

text \<open>
  Claim C3. Fitting should retain exactly the \<^verbatim>\<open>max_words\<close> most frequent tokens: on the
  corpus \<^verbatim>\<open>["a a b", "b c"]\<close> with \<^verbatim>\<open>max_words = 2\<close> the tokens \<^verbatim>\<open>a\<close> and \<^verbatim>\<open>b\<close>, as the
  notebook's comment on \<^verbatim>\<open>max_words\<close> has it (\<^verbatim>\<open># Consider the top 5000 words\<close>). The code
  keeps one word less. \<open>preprocess_text\<close> on that corpus gives the ids a: 1, b: 2, c: 3,
  but \<^verbatim>\<open>texts_to_sequences\<close> lets through only the ids below \<^verbatim>\<open>num_words = 2\<close>: the token
  \<^verbatim>\<open>b\<close> is dropped from both reviews, and the vocabulary in use is \<^verbatim>\<open>a\<close> alone.
\<close>

theorem preprocess_text_top_words:
  "preprocess_text [str ''a a b'', str ''b c''] 2 4 =
     Inr ([[0, 0, 1, 1], [0, 0, 0, 0]], fit_on_texts (Tokenizer 2) [str ''a a b'', str ''b c'']) \<and>
   word_index (fit_on_texts (Tokenizer 2) [str ''a a b'', str ''b c'']) =
     [(str ''a'', 1), (str ''b'', 2), (str ''c'', 3)] \<and>
   vocabulary (fit_on_texts (Tokenizer 2) [str ''a a b'', str ''b c'']) = [(str ''a'', 1)]"
proof -
  have h: "(0::int) < 4" by simp
  have "map (\<lambda>s. replicate (nat 4 - length s) 0 @ drop (length s - nat 4) s)
      (texts_to_sequences (fit_on_texts (Tokenizer 2) [str ''a a b'', str ''b c''])
         [str ''a a b'', str ''b c'']) = [[0, 0, 1, 1], [0, 0, 0, 0]]"
    by code_simp
  then have "preprocess_text [str ''a a b'', str ''b c''] 2 4 =
     Inr ([[0, 0, 1, 1], [0, 0, 0, 0]], fit_on_texts (Tokenizer 2) [str ''a a b'', str ''b c''])"
    by (simp only: preprocess_text_pos [OF h] clean_text_corpus_example)
  then show ?thesis using fit_example by blast
qed

section \<open>Padding the retained ids\<close>

text \<open>
  Every token of a review has an id, for the tokenizer is fitted on the reviews it
  transforms; the row of a review is made from the ids of its tokens that the vocabulary
  in use holds, in their order, and the other tokens are dropped.
\<close>

lemma token_has_id:
  assumes "i < length texts" and "w \<in> set (text_to_word_sequence (texts ! i))"
  shows "map_of (word_index (fit_on_texts (Tokenizer n) texts)) w \<noteq> None"
proof -
  let ?ws = "concat (map text_to_word_sequence texts)"
  have "w \<in> set ?ws" using assms by auto
  then have "w \<in> set (map fst (word_index (fit_on_texts (Tokenizer n) texts)))"
    by (simp add: voc_fit Let_def set_first_seen del: set_concat)
  then show ?thesis by (simp add: map_of_eq_None_iff)
qed

lemma distinct_word_index_fit:
  "distinct (map fst (word_index (fit_on_texts (Tokenizer n) texts)))"
  by (simp add: voc_fit Let_def distinct_first_seen)

lemma vocabulary_subset: "set (vocabulary tok) \<subseteq> set (word_index tok)"
  by (auto simp: vocabulary_def)

lemma retained_ids:
  assumes "i < length reviews"
  shows "texts_to_sequences (fit_on_texts (Tokenizer max_words) (map clean_text reviews))
           (map clean_text reviews) ! i =
         List.map_filter
           (map_of (vocabulary (fit_on_texts (Tokenizer max_words) (map clean_text reviews))))
           (text_to_word_sequence (clean_text (reviews ! i)))"
  using assms
  by (simp add: texts_to_sequences_vocabulary [OF distinct_word_index_fit])

lemma clean_text_corpus_example2:
  "map clean_text [str ''a a b'', str ''b c d e''] = [str ''a a b'', str ''b c d e'']"
  by (simp add: clean_text_def str_def sub_non_letter_def strip_def is_space_def
      is_ascii_letter_def)

lemma tokens_example:
  "text_to_word_sequence (clean_text (str ''b c d e'')) = [str ''b'', str ''c'', str ''d'', str ''e'']"
proof -
  have "clean_text (str ''b c d e'') = str ''b c d e''"
    using clean_text_corpus_example2 by simp
  moreover have "text_to_word_sequence (str ''b c d e'') = [str ''b'', str ''c'', str ''d'', str ''e'']"
    by code_simp
  ultimately show ?thesis by simp
qed

lemma word_index_example2:
  "word_index (fit_on_texts (Tokenizer 2) [str ''a a b'', str ''b c d e'']) =
     [(str ''a'', 1), (str ''b'', 2), (str ''c'', 3), (str ''d'', 4), (str ''e'', 5)]"
  by code_simp

lemma dropped_example:
  "preprocess_text [str ''a a b'', str ''b c d e''] 2 3 =
     Inr ([[0, 1, 1], [0, 0, 0]], fit_on_texts (Tokenizer 2) [str ''a a b'', str ''b c d e''])"
proof -
  have h: "(0::int) < 3" by simp
  have "map (\<lambda>s. replicate (nat 3 - length s) 0 @ drop (length s - nat 3) s)
      (texts_to_sequences (fit_on_texts (Tokenizer 2) [str ''a a b'', str ''b c d e''])
         [str ''a a b'', str ''b c d e'']) = [[0, 1, 1], [0, 0, 0]]"
    by code_simp
  then show ?thesis by (simp only: preprocess_text_pos [OF h] clean_text_corpus_example2)
qed

text \<open>
  Claim C2 says that a text whose token sequence is longer than \<^verbatim>\<open>max_len\<close> is mapped to
  the ids of its last \<^verbatim>\<open>max_len\<close> tokens, and a shorter one to zeros followed by the ids
  of its tokens. With \<^verbatim>\<open>max_words = 2\<close> and \<^verbatim>\<open>max_len = 3\<close> the review \<^verbatim>\<open>"b c d e"\<close> has
  four tokens, with the ids 2, 3, 4 and 5, and its row is not \<^verbatim>\<open>[3, 4, 5]\<close> but
  \<^verbatim>\<open>[0, 0, 0]\<close>: its tokens are outside the vocabulary in use and are dropped before the
  padding.
\<close>

theorem preprocess_text_padding_counterexample:
  "text_to_word_sequence (clean_text (str ''b c d e'')) =
     [str ''b'', str ''c'', str ''d'', str ''e''] \<and>
   word_index (fit_on_texts (Tokenizer 2) [str ''a a b'', str ''b c d e'']) =
     [(str ''a'', 1), (str ''b'', 2), (str ''c'', 3), (str ''d'', 4), (str ''e'', 5)] \<and>
   preprocess_text [str ''a a b'', str ''b c d e''] 2 3 =
     Inr ([[0, 1, 1], [0, 0, 0]], fit_on_texts (Tokenizer 2) [str ''a a b'', str ''b c d e''])"
  using tokens_example word_index_example2 dropped_example by blast

text \<open>
  Claim C2, amended. For a positive \<^verbatim>\<open>max_len\<close> and every review of the list given to
  \<open>preprocess_text\<close>: the tokens of the review are the whitespace-separated words of the
  cleaned review in lower case and each has an id; let \<open>s\<close> be the ids, in their order, of
  the tokens that the vocabulary in use holds (a token outside it is dropped, it is not
  mapped to a reserved id). When \<open>s\<close> is shorter than \<^verbatim>\<open>max_len\<close> the row of the review is
  zeros followed by \<open>s\<close>; when \<open>s\<close> is longer, the row is the last \<^verbatim>\<open>max_len\<close> ids of
  \<open>s\<close>; when it has that length, the row is \<open>s\<close>.
\<close>

theorem preprocess_text_padding:
  assumes "0 < max_len" and "i < length reviews"
  shows "\<exists>X t. preprocess_text reviews max_words max_len = Inr (X, t) \<and>
           length X = length reviews \<and>
           (let tokens = text_to_word_sequence (clean_text (reviews ! i));
                s = List.map_filter (map_of (vocabulary t)) tokens
            in tokens = map lower (split_ws (clean_text (reviews ! i))) \<and>
               (\<forall>w\<in>set tokens. map_of (word_index t) w \<noteq> None) \<and>
               set (vocabulary t) \<subseteq> set (word_index t) \<and>
               (length s < nat max_len \<longrightarrow> X ! i = replicate (nat max_len - length s) 0 @ s) \<and>
               (length s = nat max_len \<longrightarrow> X ! i = s) \<and>
               (nat max_len < length s \<longrightarrow> X ! i = drop (length s - nat max_len) s))"
proof -
  let ?texts = "map clean_text reviews"
  let ?tok = "fit_on_texts (Tokenizer max_words) ?texts"
  let ?seqs = "texts_to_sequences ?tok ?texts"
  let ?X = "map (\<lambda>s. replicate (nat max_len - length s) 0 @ drop (length s - nat max_len) s) ?seqs"
  let ?tokens = "text_to_word_sequence (clean_text (reviews ! i))"
  let ?s = "List.map_filter (map_of (vocabulary ?tok)) ?tokens"
  have pp: "preprocess_text reviews max_words max_len = Inr (?X, ?tok)"
    by (rule preprocess_text_pos [OF assms(1)])
  have len: "length ?X = length reviews" by (simp add: length_texts_to_sequences)
  have s: "?seqs ! i = ?s" by (rule retained_ids [OF assms(2)])
  have Xi: "?X ! i = replicate (nat max_len - length ?s) 0 @ drop (length ?s - nat max_len) ?s"
    using assms(2) s by (simp add: length_texts_to_sequences)
  have i: "i < length ?texts" and nth: "?texts ! i = clean_text (reviews ! i)"
    using assms(2) by simp_all
  have ids: "\<forall>w\<in>set ?tokens. map_of (word_index ?tok) w \<noteq> None"
    using token_has_id [OF i, of _ max_words] unfolding nth by blast
  have tokens: "?tokens = map lower (split_ws (clean_text (reviews ! i)))"
    by (rule text_to_word_sequence_clean_text)
  have sub: "set (vocabulary ?tok) \<subseteq> set (word_index ?tok)" by (rule vocabulary_subset)
  have "(length ?s < nat max_len \<longrightarrow> ?X ! i = replicate (nat max_len - length ?s) 0 @ ?s) \<and>
        (length ?s = nat max_len \<longrightarrow> ?X ! i = ?s) \<and>
        (nat max_len < length ?s \<longrightarrow> ?X ! i = drop (length ?s - nat max_len) ?s)"
    unfolding Xi by simp
  with pp len ids tokens sub show ?thesis unfolding Let_def by blast
qed

lemma kept_example:
  "preprocess_text [str ''a a b'', str ''b c d e''] 10 3 =
     Inr ([[1, 1, 2], [3, 4, 5]], fit_on_texts (Tokenizer 10) [str ''a a b'', str ''b c d e''])"
proof -
  have h: "(0::int) < 3" by simp
  have "map (\<lambda>s. replicate (nat 3 - length s) 0 @ drop (length s - nat 3) s)
      (texts_to_sequences (fit_on_texts (Tokenizer 10) [str ''a a b'', str ''b c d e''])
         [str ''a a b'', str ''b c d e'']) = [[1, 1, 2], [3, 4, 5]]"
    by code_simp
  then show ?thesis by (simp only: preprocess_text_pos [OF h] clean_text_corpus_example2)
qed

text \<open>
  The theorem at \<^verbatim>\<open>max_words = 10\<close> and \<^verbatim>\<open>max_len = 3\<close>, for the review of four tokens.
\<close>

theorem preprocess_text_padding_witness:
  "(0::int) < 3 \<and> (1::nat) < length [str ''a a b'', str ''b c d e''] \<and>
   preprocess_text [str ''a a b'', str ''b c d e''] 10 3 =
     Inr ([[1, 1, 2], [3, 4, 5]], fit_on_texts (Tokenizer 10) [str ''a a b'', str ''b c d e''])"
proof -
  have h: "(0::int) < 3" by simp
  have i: "(1::nat) < length [str ''a a b'', str ''b c d e'']" by simp
  from preprocess_text_padding [OF h i, of 10]
  obtain X t where "preprocess_text [str ''a a b'', str ''b c d e''] 10 3 = Inr (X, t)"
    by blast
  then show ?thesis using h i kept_example by simp
qed

section \<open>The range of the ids\<close>

lemma word_index_fit_ge1: "(w, i) \<in> set (word_index (fit_on_texts tok texts)) \<Longrightarrow> 1 \<le> i"
  by (auto simp: fit_on_texts_def Let_def dest!: set_zip_rightD)

lemma in_set_map_filterD: "y \<in> set (List.map_filter f xs) \<Longrightarrow> \<exists>x\<in>set xs. f x = Some y"
  by (auto simp: List.map_filter_def)

lemma texts_to_sequences_elem:
  assumes "row \<in> set (texts_to_sequences tok texts)" "x \<in> set row"
  shows "(\<exists>w. (w, x) \<in> set (word_index tok)) \<and> \<not> (num_words tok \<noteq> 0 \<and> num_words tok \<le> x)"
proof -
  from assms obtain w where
    "(case map_of (word_index tok) w of None \<Rightarrow> None
      | Some i \<Rightarrow> if num_words tok \<noteq> 0 \<and> num_words tok \<le> i then None else Some i) = Some x"
    unfolding texts_to_sequences_def by (auto dest: in_set_map_filterD)
  then have "map_of (word_index tok) w = Some x \<and> \<not> (num_words tok \<noteq> 0 \<and> num_words tok \<le> x)"
    by (auto split: option.splits if_splits)
  then show ?thesis by (auto dest: map_of_SomeD)
qed

lemma padded_elem:
  "x \<in> set (replicate (n - length s) 0 @ drop (length s - n) s) \<Longrightarrow> x = (0::int) \<or> x \<in> set s"
  by (auto dest: in_set_dropD)

lemma ids_example:
  "preprocess_text [str ''a a b'', str ''b c''] 3 4 =
     Inr ([[0, 1, 1, 2], [0, 0, 0, 2]],
          fit_on_texts (Tokenizer 3) [str ''a a b'', str ''b c''])"
proof -
  have h: "(0::int) < 4" by simp
  have "map (\<lambda>s. replicate (nat 4 - length s) 0 @ drop (length s - nat 4) s)
      (texts_to_sequences (fit_on_texts (Tokenizer 3) [str ''a a b'', str ''b c''])
         [str ''a a b'', str ''b c'']) = [[0, 1, 1, 2], [0, 0, 0, 2]]"
    by code_simp
  then show ?thesis by (simp only: preprocess_text_pos [OF h] clean_text_corpus_example)
qed

text \<open>
  Claim C9. For positive \<^verbatim>\<open>max_words\<close> and \<^verbatim>\<open>max_len\<close>, \<open>preprocess_text\<close> returns a
  matrix, and every integer in it is at least 0 and less than \<^verbatim>\<open>max_words\<close>: the padding
  is 0 and every id that is let through is at least 1 and less than \<^verbatim>\<open>max_words\<close>.
\<close>

theorem sequence_ids_in_range:
  assumes "0 < max_words" and "0 < max_len"
  shows "\<exists>X t. preprocess_text reviews max_words max_len = Inr (X, t) \<and>
           (\<forall>row\<in>set X. \<forall>x\<in>set row. 0 \<le> x \<and> x < max_words)"
proof -
  let ?texts = "map clean_text reviews"
  let ?tok = "fit_on_texts (Tokenizer max_words) ?texts"
  let ?seqs = "texts_to_sequences ?tok ?texts"
  let ?X = "map (\<lambda>s. replicate (nat max_len - length s) 0 @ drop (length s - nat max_len) s) ?seqs"
  have nw: "num_words ?tok = max_words" by (simp add: num_words_fit Tokenizer_def)
  have ids: "1 \<le> x \<and> x < max_words" if "s \<in> set ?seqs" "x \<in> set s" for s x
  proof -
    from texts_to_sequences_elem [OF that]
    obtain w where "(w, x) \<in> set (word_index ?tok)" and "\<not> (max_words \<noteq> 0 \<and> max_words \<le> x)"
      unfolding nw by blast
    then show ?thesis using word_index_fit_ge1 assms(1) by auto
  qed
  have "0 \<le> x \<and> x < max_words" if "row \<in> set ?X" "x \<in> set row" for row x
  proof -
    from that(1) obtain s where s: "s \<in> set ?seqs"
      and row: "row = replicate (nat max_len - length s) 0 @ drop (length s - nat max_len) s"
      by auto
    from that(2) have "x = 0 \<or> x \<in> set s" unfolding row by (rule padded_elem)
    then show ?thesis
    proof
      assume "x = 0"
      then show ?thesis using assms(1) by simp
    next
      assume "x \<in> set s"
      then show ?thesis using ids [OF s, of x] by simp
    qed
  qed
  then show ?thesis using preprocess_text_pos [OF assms(2), of reviews max_words] by blast
qed

text \<open>
  The theorem at \<^verbatim>\<open>max_words = 3\<close> and \<^verbatim>\<open>max_len = 4\<close>.
\<close>

theorem sequence_ids_in_range_witness:
  "(0::int) < 3 \<and> (0::int) < 4 \<and>
   (\<exists>t. preprocess_text [str ''a a b'', str ''b c''] 3 4 = Inr ([[0, 1, 1, 2], [0, 0, 0, 2]], t))"
proof -
  have h1: "(0::int) < 3" and h2: "(0::int) < 4" by simp_all
  from sequence_ids_in_range [OF h1 h2, of "[str ''a a b'', str ''b c'']"]
  obtain X t where "preprocess_text [str ''a a b'', str ''b c''] 3 4 = Inr (X, t)" by blast
  then show ?thesis using ids_example by simp
qed

section \<open>Reviews without letters\<close>

lemma clean_text_no_letters:
  assumes "\<forall>c\<in>set review. \<not> is_ascii_letter c"
  shows "clean_text review = []"
proof -
  have "\<forall>c\<in>set (sub_non_letter review). is_space c"
    using assms by (auto simp: sub_non_letter_def)
  then have "dropWhile is_space (sub_non_letter review) = []" by simp
  then have "split_ws (sub_non_letter review) = []" by (rule split_ws_Nil)
  then show ?thesis by (simp add: clean_text_words)
qed

lemma text_to_word_sequence_empty: "text_to_word_sequence [] = []"
  by (simp add: text_to_word_sequence_def lower_def)

text \<open>
  Claim C10. A review with no ASCII letter is cleaned to the empty string, and for a
  positive \<^verbatim>\<open>max_len\<close> its row in the matrix of \<open>preprocess_text\<close> is \<^verbatim>\<open>max_len\<close>
  zeros.
\<close>

theorem no_letters_all_zero:
  assumes "\<forall>c\<in>set review. \<not> is_ascii_letter c"
    and "0 < max_len" and "i < length reviews" and "reviews ! i = review"
  shows "clean_text review = [] \<and>
         (\<exists>X t. preprocess_text reviews max_words max_len = Inr (X, t) \<and>
            X ! i = replicate (nat max_len) 0)"
proof -
  have c: "clean_text (reviews ! i) = []"
    using clean_text_no_letters assms(1,4) by simp
  let ?texts = "map clean_text reviews"
  let ?tok = "fit_on_texts (Tokenizer max_words) ?texts"
  have "texts_to_sequences ?tok ?texts ! i = []"
    using assms(3) c by (simp add: texts_to_sequences_def text_to_word_sequence_empty List.map_filter_simps)
  then have "map (\<lambda>s. replicate (nat max_len - length s) 0 @ drop (length s - nat max_len) s)
      (texts_to_sequences ?tok ?texts) ! i = replicate (nat max_len) 0"
    using assms(3) by (simp add: length_texts_to_sequences)
  then show ?thesis using c assms(4) preprocess_text_pos [OF assms(2), of reviews max_words] by simp
qed

text \<open>
  The theorem for the review \<^verbatim>\<open>"123 !!"\<close> at \<^verbatim>\<open>max_len = 3\<close>.
\<close>

theorem no_letters_all_zero_witness:
  "clean_text (str ''123 !!'') = [] \<and>
   (\<exists>X t. preprocess_text [str ''good film'', str ''123 !!''] 10 3 = Inr (X, t) \<and>
      X ! 1 = replicate (nat 3) 0)"
proof -
  have h1: "\<forall>c\<in>set (str ''123 !!''). \<not> is_ascii_letter c"
    by (simp add: str_def is_ascii_letter_def)
  have h2: "(0::int) < 3" by simp
  have h3: "1 < length [str ''good film'', str ''123 !!'']" by simp
  have h4: "[str ''good film'', str ''123 !!''] ! 1 = str ''123 !!''" by simp
  show ?thesis by (rule no_letters_all_zero [OF h1 h2 h3 h4])
qed

section \<open>Labels\<close>

text \<open>
  Claim C4. \<open>encode_labels\<close> returns one value for each record; the label
  \<^verbatim>\<open>"positive"\<close> becomes 1 and the label \<^verbatim>\<open>"negative"\<close> becomes 0, at every position.
\<close>

theorem encode_labels_known:
  "\<exists>ys. encode_labels sentiments = Inr ys \<and> length ys = length sentiments \<and>
     (\<forall>i<length sentiments.
        (sentiments ! i = str ''positive'' \<longrightarrow> ys ! i = Some 1) \<and>
        (sentiments ! i = str ''negative'' \<longrightarrow> ys ! i = Some 0))"
  by (simp add: encode_labels_def str_def)

text \<open>
  The theorem on three labels.
\<close>

theorem encode_labels_known_witness:
  "encode_labels [str ''positive'', str ''negative'', str ''positive''] =
     Inr [Some 1, Some 0, Some 1]"
  using encode_labels_known [of "[str ''positive'', str ''negative'', str ''positive'']"]
  by (simp add: encode_labels_def str_def)

text \<open>
  Claim C5 says that a label outside the two, such as \<^verbatim>\<open>"neutral"\<close>, makes the encoder
  fail. It does not fail: it returns, and the value for that label is the missing value.
\<close>

theorem encode_labels_unknown_counterexample:
  "\<not> isl (encode_labels [str ''neutral'']) \<and> encode_labels [str ''neutral''] = Inr [None]"
  by (simp add: encode_labels_def str_def)

text \<open>
  Claim C5, amended. For a label that is neither \<^verbatim>\<open>"positive"\<close> nor \<^verbatim>\<open>"negative"\<close>,
  \<open>encode_labels\<close> does not fail; it returns one value for each record, and the value at
  the position of that label is the missing value.
\<close>

theorem encode_labels_unknown:
  assumes "i < length sentiments"
    and "sentiments ! i \<noteq> str ''positive''" and "sentiments ! i \<noteq> str ''negative''"
  shows "\<exists>ys. encode_labels sentiments = Inr ys \<and> length ys = length sentiments \<and> ys ! i = None"
  using assms by (simp add: encode_labels_def)

text \<open>
  The theorem for the label \<^verbatim>\<open>"neutral"\<close> in second place.
\<close>

theorem encode_labels_unknown_witness:
  "(1::nat) < length [str ''positive'', str ''neutral''] \<and>
   [str ''positive'', str ''neutral''] ! 1 \<noteq> str ''positive'' \<and>
   [str ''positive'', str ''neutral''] ! 1 \<noteq> str ''negative'' \<and>
   (\<exists>ys. encode_labels [str ''positive'', str ''neutral''] = Inr ys \<and>
      length ys = length [str ''positive'', str ''neutral''] \<and> ys ! 1 = None)"
proof -
  have a: "(1::nat) < length [str ''positive'', str ''neutral'']" by simp
  have b: "[str ''positive'', str ''neutral''] ! 1 \<noteq> str ''positive''" by (simp add: str_def)
  have c: "[str ''positive'', str ''neutral''] ! 1 \<noteq> str ''negative''" by (simp add: str_def)
  from encode_labels_unknown [OF a b c] a b c show ?thesis by blast
qed

section \<open>Loading\<close>







lemma read_csv_missing: "fs file_path = None \<Longrightarrow> read_csv fs na_values file_path on_bad = Inl FileNotFoundError"
  by (simp add: read_csv_def)






text \<open>
  With \<^verbatim>\<open>on_bad_lines='error'\<close>, the default, a row with too many fields or a record that
  the reader cannot split makes \<^verbatim>\<open>read_csv\<close> fail.
\<close>

lemma read_csv_error_example:
  "read_csv
     [str ''IMDB Dataset.csv'' \<mapsto>
        [Fields [str ''review'', str ''sentiment''],
         Fields [str ''great'', str ''positive''],
         Fields [str ''bad'', str ''film'', str ''negative'']]]
     [str '''', str ''NA'', str ''NaN'']
     (str ''IMDB Dataset.csv'') Bad_error = Inl ParserError \<and>
   read_csv
     [str ''IMDB Dataset.csv'' \<mapsto>
        [Fields [str ''review'', str ''sentiment''],
         Csv_error,
         Fields [str ''great'', str ''positive'']]]
     [str '''', str ''NA'', str ''NaN'']
     (str ''IMDB Dataset.csv'') Bad_error = Inl ParserError"
  by (simp add: read_csv_def get_index_name_def rows_to_cols_def is_blank_def str_def)




section \<open>The smallest values of the two options\<close>

text \<open>
  The theorems above take \<^verbatim>\<open>max_len\<close> and \<^verbatim>\<open>max_words\<close> positive. With \<^verbatim>\<open>maxlen = 0\<close>
  the slice \<^verbatim>\<open>s[-0:]\<close> is the whole sequence, and \<^verbatim>\<open>pad_sequences\<close> raises for a
  sequence of two ids or more; a negative \<^verbatim>\<open>maxlen\<close> raises as well. With
  \<^verbatim>\<open>num_words = 0\<close> the test \<^verbatim>\<open>num_words and i >= num_words\<close> never holds, and every id is
  let through.
\<close>

lemma pad_sequences_maxlen_zero:
  "pad_sequences [[1, 2]] 0 = Inl ValueError \<and> pad_sequences [[1], []] 0 = Inr [[], []] \<and>
   pad_sequences [[1, 2]] (- 1) = Inl ValueError"
  by (simp add: pad_sequences_def py_suffix_def assign_suffix_def)

lemma preprocess_text_max_words_zero:
  "preprocess_text [str ''a a b'', str ''b c''] 0 4 =
     Inr ([[0, 1, 1, 2], [0, 0, 2, 3]],
          fit_on_texts (Tokenizer 0) [str ''a a b'', str ''b c''])"
proof -
  have h: "(0::int) < 4" by simp
  have "map (\<lambda>s. replicate (nat 4 - length s) 0 @ drop (length s - nat 4) s)
      (texts_to_sequences (fit_on_texts (Tokenizer 0) [str ''a a b'', str ''b c''])
         [str ''a a b'', str ''b c'']) = [[0, 1, 1, 2], [0, 0, 2, 3]]"
    by code_simp
  then show ?thesis by (simp only: preprocess_text_pos [OF h] clean_text_corpus_example)
qed

end
